theory Spec2Isabelle
  imports Main "HOL-Library.Word" "HOL-Library.Multiset"
begin

section \<open>Simple LMK: data model\<close>

text \<open>
  The reclaim engine of \<^verbatim>\<open>simple_lmk\<close> (the first unnamed source file). C types:
  \<^verbatim>\<open>unsigned long\<close> is a 64-bit word (the kernel is built for arm64), \<^verbatim>\<open>int\<close> a
  32-bit word where its width matters (the result of \<^verbatim>\<open>victim_cmp\<close>), and
  \<^verbatim>\<open>short\<close> a 16-bit word read with \<open>sint\<close>. Array indices and counters that
  only count up from 0 to at most \<^verbatim>\<open>MAX_VICTIMS\<close> are \<open>nat\<close>. Pointers are addresses
  (\<open>nat\<close>), a pointer that may be \<^verbatim>\<open>NULL\<close> is an \<open>option\<close>.
\<close>

type_synonym ulong = "64 word"

text \<open>\<^verbatim>\<open>#define MAX_VICTIMS 1024\<close>\<close>

definition MAX_VICTIMS :: nat where
  "MAX_VICTIMS = 1024"

definition SHRT_MAX :: int where
  "SHRT_MAX = 32767"

text \<open>\<^verbatim>\<open>struct victim_info { struct task_struct *tsk; struct mm_struct *mm; unsigned long size; }\<close>\<close>

record victim_info =
  tsk :: "nat option"
  mm :: "nat option"
  size_v :: ulong

text \<open>
  What \<^verbatim>\<open>find_lock_task_mm(tsk)\<close> hands back when it finds a thread of the group that
  still has an address space: that thread, its \<^verbatim>\<open>mm\<close> (never \<^verbatim>\<open>NULL\<close>) and the
  \<^verbatim>\<open>NR_MM_COUNTERS\<close> counters that \<^verbatim>\<open>get_mm_counter\<close> reads from the \<^verbatim>\<open>mm\<close>.
\<close>

record locked_task =
  lt_tsk :: nat
  lt_mm :: nat
  mm_counters :: "ulong list"

text \<open>
  A process as \<^verbatim>\<open>find_victims\<close> sees it: its address, the snapshot of
  \<^verbatim>\<open>signal->oom_score_adj\<close> (a \<^verbatim>\<open>short\<close>), the outcome of the three tests of the
  eligibility filter, and the outcome of \<^verbatim>\<open>find_lock_task_mm\<close> (\<open>None\<close> for
  \<^verbatim>\<open>NULL\<close>).
\<close>

record task_struct =
  task_addr :: nat
  oom_score_adj :: "16 word"
  signal_group_exit_or_coredump :: bool
  thread_group_empty :: bool
  pf_exiting :: bool
  find_lock_task_mm :: "locked_task option"

text \<open>
  What the engine does to its environment, in order: the calls that leave the module,
  and two marks of the scanner's own steps (the bucket whose chain it walks, the table
  index it writes).
\<close>

datatype event =
    Consume_Bucket nat
  | Victim_Write nat
  | Pr_Err_No_Processes
  | Send_Sigkill "nat option"
  | Expedite "nat option"
  | Task_Unlock "nat option"
  | Wait_For_Completion
  | Pr_Info_Timeout
  | Complete
  | Wake_Up

text \<open>
  The module's static variables. \<^verbatim>\<open>task_bucket[adj]\<close> heads a chain linked through
  \<^verbatim>\<open>tsk->simple_lmk_next\<close>; the chain is the list of its tasks, head first, and
  \<^verbatim>\<open>NULL\<close> is the empty list. \<^verbatim>\<open>reclaim_done\<close> is the completion's \<^verbatim>\<open>done\<close> count.
\<close>

record lmk_state =
  victims :: "nat \<Rightarrow> victim_info"
  task_bucket :: "nat \<Rightarrow> task_struct list"
  nr_victims :: nat
  min_pressure :: int
  needs_reclaim :: int
  nr_killed :: nat
  screen_on :: bool
  reclaim_done :: nat
  trace :: "event list"

section \<open>Sorting the victim table\<close>

text \<open>
  \<^verbatim>\<open>return rhs->size - lhs->size;\<close> The difference is an \<^verbatim>\<open>unsigned long\<close>, the result
  an \<^verbatim>\<open>int\<close>: the low 32 bits of the difference.
\<close>

definition victim_cmp :: "victim_info \<Rightarrow> victim_info \<Rightarrow> 32 word" where
  "victim_cmp lhs rhs = ucast (size_v rhs - size_v lhs)"

text \<open>
  Modelled from the spec: the kernel's generic \<^verbatim>\<open>sort(base, num, size, cmp_func, swap_func)\<close>
  (lib/sort.c) is not among the sources. The spec only says that a slice is sorted by
  descending size; the model is a comparison sort that rearranges whole elements (as
  \<^verbatim>\<open>victim_swap\<close> does) and decides every order by the sign of the comparator the caller
  passes: \<open>lhs\<close> stays before \<open>rhs\<close> when \<open>cmp_func lhs rhs \<le> 0\<close>.
\<close>

fun sort_insert :: "('a \<Rightarrow> 'a \<Rightarrow> 32 word) \<Rightarrow> 'a \<Rightarrow> 'a list \<Rightarrow> 'a list" where
  "sort_insert cmp_func x [] = [x]"
| "sort_insert cmp_func x (y # ys) =
     (if sint (cmp_func x y) \<le> 0 then x # y # ys else y # sort_insert cmp_func x ys)"

fun sort_c :: "('a \<Rightarrow> 'a \<Rightarrow> 32 word) \<Rightarrow> 'a list \<Rightarrow> 'a list" where
  "sort_c cmp_func [] = []"
| "sort_c cmp_func (x # xs) = sort_insert cmp_func x (sort_c cmp_func xs)"

text \<open>The elements \<^verbatim>\<open>base[0 .. num)\<close> of the table, for \<^verbatim>\<open>base = &victims[lo]\<close>.\<close>

definition slice :: "(nat \<Rightarrow> 'a) \<Rightarrow> nat \<Rightarrow> nat \<Rightarrow> 'a list" where
  "slice tab lo num = map tab [lo ..< lo + num]"

definition put_slice :: "(nat \<Rightarrow> 'a) \<Rightarrow> nat \<Rightarrow> 'a list \<Rightarrow> (nat \<Rightarrow> 'a)" where
  "put_slice tab lo xs = (\<lambda>k. if lo \<le> k \<and> k < lo + length xs then xs ! (k - lo) else tab k)"

text \<open>\<^verbatim>\<open>sort(&victims[lo], num, sizeof(*victims), victim_cmp, victim_swap)\<close>\<close>

definition sort_victims :: "nat \<Rightarrow> nat \<Rightarrow> lmk_state \<Rightarrow> lmk_state" where
  "sort_victims lo num s =
     s\<lparr>victims := put_slice (victims s) lo (sort_c victim_cmp (slice (victims s) lo num))\<rparr>"

section \<open>The scanner\<close>

text \<open>\<^verbatim>\<open>for (i = 0; i < NR_MM_COUNTERS; i++) pages += get_mm_counter(mm, i);\<close>\<close>

definition get_total_mm_pages :: "ulong list \<Rightarrow> ulong" where
  "get_total_mm_pages counters = foldl (\<lambda>pages c. pages + c) 0 counters"

text \<open>The filter of the first loop: a task that passes it is put into a bucket.\<close>

definition eligible :: "task_struct \<Rightarrow> bool" where
  "eligible t \<longleftrightarrow>
     \<not> (sint (oom_score_adj t) < 0 \<or> signal_group_exit_or_coredump t \<or>
        (thread_group_empty t \<and> pf_exiting t))"

text \<open>
  The \<^verbatim>\<open>for_each_process\<close> loop: the bucket array and the locals \<^verbatim>\<open>min_adj\<close>,
  \<^verbatim>\<open>max_adj\<close> (shorts, here their values).
\<close>

fun bucket_tasks ::
  "task_struct list \<Rightarrow> (nat \<Rightarrow> task_struct list) \<Rightarrow> int \<Rightarrow> int \<Rightarrow>
     (nat \<Rightarrow> task_struct list) \<times> int \<times> int" where
  "bucket_tasks [] tb min_adj max_adj = (tb, min_adj, max_adj)"
| "bucket_tasks (t # ts) tb min_adj max_adj =
     (let adj = sint (oom_score_adj t) in
      if adj < 0 \<or> signal_group_exit_or_coredump t \<or> (thread_group_empty t \<and> pf_exiting t)
      then bucket_tasks ts tb min_adj max_adj
      else bucket_tasks ts (tb(nat adj := t # tb (nat adj)))
             (if adj < min_adj then adj else min_adj)
             (if adj > max_adj then adj else max_adj))"

text \<open>
  The \<^verbatim>\<open>do { ... } while ((tsk = tsk->simple_lmk_next))\<close> loop over one chain, with the
  locals \<^verbatim>\<open>*vindex\<close> and \<^verbatim>\<open>pages_found\<close>. \<^verbatim>\<open>continue\<close> goes to the loop condition,
  \<^verbatim>\<open>break\<close> leaves the rest of the chain behind.
\<close>

fun walk_chain ::
  "task_struct list \<Rightarrow> nat \<Rightarrow> ulong \<Rightarrow> lmk_state \<Rightarrow> nat \<times> ulong \<times> lmk_state" where
  "walk_chain [] vindex pages_found s = (vindex, pages_found, s)"
| "walk_chain (t # chain) vindex pages_found s =
     (case find_lock_task_mm t of
        None \<Rightarrow> walk_chain chain vindex pages_found s
      | Some vtsk \<Rightarrow>
          (let sz = get_total_mm_pages (mm_counters vtsk);
               s' = s\<lparr>victims := (victims s)
                         (vindex := \<lparr>tsk = Some (lt_tsk vtsk), mm = Some (lt_mm vtsk), size_v = sz\<rparr>),
                       trace := trace s @ [Victim_Write vindex]\<rparr>
           in if vindex + 1 = MAX_VICTIMS then (vindex + 1, pages_found + sz, s')
              else walk_chain chain (vindex + 1) (pages_found + sz) s'))"

text \<open>
  \<^verbatim>\<open>memset(&task_bucket[min_adj], 0, (i - min_adj) * sizeof(*task_bucket))\<close>
\<close>

definition memset_buckets ::
  "(nat \<Rightarrow> task_struct list) \<Rightarrow> int \<Rightarrow> int \<Rightarrow> (nat \<Rightarrow> task_struct list)" where
  "memset_buckets tb min_adj i = (\<lambda>k. if min_adj \<le> int k \<and> int k < i then [] else tb k)"

text \<open>
  The loop \<^verbatim>\<open>for (i = max_adj; i >= min_adj; i--)\<close>. \<open>min_free_pages\<close> is the value of
  the macro \<^verbatim>\<open>MIN_FREE_PAGES\<close>, whose constants are not among the sources. \<open>i\<close> is a
  \<^verbatim>\<open>short\<close> that never leaves the range of \<^verbatim>\<open>min_adj - 1\<close> to \<^verbatim>\<open>max_adj\<close>.
\<close>

function bucket_loop ::
  "ulong \<Rightarrow> int \<Rightarrow> int \<Rightarrow> nat \<Rightarrow> ulong \<Rightarrow> lmk_state \<Rightarrow> nat \<times> ulong \<times> lmk_state" where
  "bucket_loop min_free_pages min_adj i vindex pages_found s =
     (if i \<ge> min_adj then
        (case task_bucket s (nat i) of
           [] \<Rightarrow> bucket_loop min_free_pages min_adj (i - 1) vindex pages_found s
         | t # chain \<Rightarrow>
             (let s1 = s\<lparr>task_bucket := (task_bucket s)(nat i := []),
                         trace := trace s @ [Consume_Bucket (nat i)]\<rparr>;
                  old_vindex = vindex;
                  (vindex', pages_found', s2) = walk_chain (t # chain) vindex pages_found s1
              in if vindex' = old_vindex
                 then bucket_loop min_free_pages min_adj (i - 1) vindex' pages_found' s2
                 else
                   (let s3 = sort_victims old_vindex (vindex' - old_vindex) s2
                    in if vindex' = MAX_VICTIMS \<or> pages_found' \<ge> min_free_pages
                       then (vindex', pages_found',
                             if i > min_adj
                             then s3\<lparr>task_bucket := memset_buckets (task_bucket s3) min_adj i\<rparr>
                             else s3)
                       else bucket_loop min_free_pages min_adj (i - 1) vindex' pages_found' s3)))
      else (vindex, pages_found, s))"
  by pat_completeness auto
termination
  by (relation "measure (\<lambda>(m, min_adj, i, v, p, s). nat (i - min_adj + 1))") auto

text \<open>
  \<^verbatim>\<open>static unsigned long find_victims(int *vindex)\<close>: returns the final \<^verbatim>\<open>*vindex\<close>,
  \<^verbatim>\<open>pages_found\<close> and the state.
\<close>

definition find_victims ::
  "task_struct list \<Rightarrow> ulong \<Rightarrow> nat \<Rightarrow> lmk_state \<Rightarrow> nat \<times> ulong \<times> lmk_state" where
  "find_victims procs min_free_pages vindex s =
     (let (tb, min_adj, max_adj) = bucket_tasks procs (task_bucket s) SHRT_MAX 0
      in bucket_loop min_free_pages min_adj max_adj vindex 0 (s\<lparr>task_bucket := tb\<rparr>))"

section \<open>The selector and the kill loop\<close>

text \<open>
  The loop of \<^verbatim>\<open>process_victims(vlen)\<close> with its locals \<^verbatim>\<open>i\<close>, \<^verbatim>\<open>pages_found\<close> and
  \<^verbatim>\<open>nr_to_kill\<close>: a victim met when the running total has reached the target is
  released with \<^verbatim>\<open>task_unlock\<close>, any other is counted.
\<close>

function process_victims_loop ::
  "ulong \<Rightarrow> nat \<Rightarrow> nat \<Rightarrow> ulong \<Rightarrow> nat \<Rightarrow> lmk_state \<Rightarrow> nat \<times> lmk_state" where
  "process_victims_loop min_free_pages vlen i pages_found nr_to_kill s =
     (if i < vlen then
        (if pages_found \<ge> min_free_pages
         then process_victims_loop min_free_pages vlen (i + 1) pages_found nr_to_kill
                (s\<lparr>trace := trace s @ [Task_Unlock (tsk (victims s i))]\<rparr>)
         else process_victims_loop min_free_pages vlen (i + 1)
                (pages_found + size_v (victims s i)) (nr_to_kill + 1) s)
      else (nr_to_kill, s))"
  by pat_completeness auto
termination
  by (relation "measure (\<lambda>(m, vlen, i, p, n, s). vlen - i)") auto

definition process_victims :: "ulong \<Rightarrow> nat \<Rightarrow> lmk_state \<Rightarrow> nat \<times> lmk_state" where
  "process_victims min_free_pages vlen s = process_victims_loop min_free_pages vlen 0 0 0 s"

text \<open>
  The part of \<^verbatim>\<open>scan_and_kill\<close> between the scan and the publication of
  \<^verbatim>\<open>nr_victims\<close>: two rounds of \<^verbatim>\<open>process_victims\<close> around a sort of the whole
  chosen prefix when more pages were found than needed, everybody otherwise.
\<close>

definition select_victims :: "ulong \<Rightarrow> nat \<Rightarrow> ulong \<Rightarrow> lmk_state \<Rightarrow> nat \<times> lmk_state" where
  "select_victims min_free_pages nr_found pages_found s =
     (if pages_found > min_free_pages then
        (let (nr_to_kill, s1) = process_victims min_free_pages nr_found s;
             s2 = sort_victims 0 nr_to_kill s1
         in process_victims min_free_pages nr_to_kill s2)
      else (nr_found, s))"

text \<open>
  The loop \<^verbatim>\<open>for (i = 0; i < nr_to_kill; i++)\<close>: the forced \<^verbatim>\<open>SIGKILL\<close>, then what
  speeds the victim's death up (\<^verbatim>\<open>TIF_MEMDIE\<close>, \<^verbatim>\<open>SCHED_RR\<close>, all CPUs, thaw), then
  \<^verbatim>\<open>task_unlock\<close>.
\<close>

function kill_loop :: "nat \<Rightarrow> nat \<Rightarrow> lmk_state \<Rightarrow> lmk_state" where
  "kill_loop nr_to_kill i s =
     (if i < nr_to_kill then
        (let vtsk = tsk (victims s i)
         in kill_loop nr_to_kill (i + 1)
              (s\<lparr>trace := trace s @ [Send_Sigkill vtsk, Expedite vtsk, Task_Unlock vtsk]\<rparr>))
      else s)"
  by pat_completeness auto
termination
  by (relation "measure (\<lambda>(n, i, s). n - i)") auto

section \<open>The completion tracker\<close>

text \<open>
  The loop of \<^verbatim>\<open>simple_lmk_mm_freed(mm)\<close>: the first slot below \<^verbatim>\<open>nr_victims\<close> whose
  \<^verbatim>\<open>mm\<close> is the freed one is cleared and counted, and the completion is signalled when
  the count reaches \<^verbatim>\<open>nr_victims\<close>.
\<close>

function mm_freed_loop :: "nat option \<Rightarrow> nat \<Rightarrow> lmk_state \<Rightarrow> lmk_state" where
  "mm_freed_loop freed i s =
     (if i < nr_victims s then
        (if mm (victims s i) = freed then
           (let s1 = s\<lparr>victims := (victims s)(i := (victims s i)\<lparr>mm := None\<rparr>),
                       nr_killed := nr_killed s + 1\<rparr>
            in if nr_killed s1 = nr_victims s1
               then s1\<lparr>reclaim_done := reclaim_done s1 + 1, trace := trace s1 @ [Complete]\<rparr>
               else s1)
         else mm_freed_loop freed (i + 1) s)
      else s)"
  by pat_completeness auto
termination
  by (relation "measure (\<lambda>(m, i, s). nr_victims s - i)") auto

text \<open>
  \<^verbatim>\<open>void simple_lmk_mm_freed(struct mm_struct *mm)\<close>; \<open>got_lock\<close> is the result of
  \<^verbatim>\<open>read_trylock(&mm_free_lock)\<close>.
\<close>

definition simple_lmk_mm_freed :: "bool \<Rightarrow> nat option \<Rightarrow> lmk_state \<Rightarrow> lmk_state" where
  "simple_lmk_mm_freed got_lock freed s = (if \<not> got_lock then s else mm_freed_loop freed 0 s)"

text \<open>The reports that arrive, one after the other, from other contexts.\<close>

fun deliver :: "(bool \<times> nat option) list \<Rightarrow> lmk_state \<Rightarrow> lmk_state" where
  "deliver [] s = s"
| "deliver ((got_lock, freed) # rest) s = deliver rest (simple_lmk_mm_freed got_lock freed s)"

text \<open>
  \<^verbatim>\<open>wait_for_completion_timeout(&reclaim_done, RECLAIM_EXPIRES)\<close>: \<open>reports\<close> are the
  reports that arrive before the wait is over; the wait is over without a timeout
  when the completion was signalled.
\<close>

definition wait_for_completion_timeout ::
  "(bool \<times> nat option) list \<Rightarrow> lmk_state \<Rightarrow> lmk_state" where
  "wait_for_completion_timeout reports s =
     (let s1 = deliver reports (s\<lparr>trace := trace s @ [Wait_For_Completion]\<rparr>)
      in if reclaim_done s1 = 0 then s1\<lparr>trace := trace s1 @ [Pr_Info_Timeout]\<rparr>
         else s1\<lparr>reclaim_done := reclaim_done s1 - 1\<rparr>)"

text \<open>
  \<^verbatim>\<open>static void scan_and_kill(void)\<close>, up to the loop that kills: the scan from
  \<^verbatim>\<open>nr_found = 0\<close>, the early return, the selection, the publication of
  \<^verbatim>\<open>nr_victims\<close> and the kills. The flag is \<open>False\<close> for the early return.
\<close>

definition scan_and_kill_start ::
  "task_struct list \<Rightarrow> ulong \<Rightarrow> lmk_state \<Rightarrow> lmk_state \<times> bool" where
  "scan_and_kill_start procs min_free_pages s =
     (let (nr_found, pages_found, s1) = find_victims procs min_free_pages 0 s
      in if nr_found = 0 then (s1\<lparr>trace := trace s1 @ [Pr_Err_No_Processes]\<rparr>, False)
         else
           (let (nr_to_kill, s2) = select_victims min_free_pages nr_found pages_found s1;
                s3 = s2\<lparr>nr_victims := nr_to_kill\<rparr>
            in (kill_loop nr_to_kill 0 s3, True)))"

text \<open>The rest of it: the wait and the clean-up for the next invocation.\<close>

definition scan_and_kill_finish :: "(bool \<times> nat option) list \<Rightarrow> lmk_state \<Rightarrow> lmk_state" where
  "scan_and_kill_finish reports s =
     (let s1 = wait_for_completion_timeout reports s
      in s1\<lparr>reclaim_done := 0, nr_victims := 0, nr_killed := 0\<rparr>)"

definition scan_and_kill ::
  "task_struct list \<Rightarrow> ulong \<Rightarrow> (bool \<times> nat option) list \<Rightarrow> lmk_state \<Rightarrow> lmk_state" where
  "scan_and_kill procs min_free_pages reports s =
     (case scan_and_kill_start procs min_free_pages s of
        (s1, False) \<Rightarrow> s1
      | (s1, True) \<Rightarrow> scan_and_kill_finish reports s1)"

section \<open>The trigger, the worker and the two observers\<close>

text \<open>\<^verbatim>\<open>atomic_cmpxchg(v, old, new)\<close>: the value read and the value left in \<^verbatim>\<open>v\<close>.\<close>

definition atomic_cmpxchg :: "int \<Rightarrow> int \<Rightarrow> int \<Rightarrow> int \<times> int" where
  "atomic_cmpxchg v old new = (v, if v = old then new else v)"

text \<open>\<^verbatim>\<open>if (!atomic_cmpxchg_acquire(&needs_reclaim, 0, 1)) wake_up(&oom_waitq);\<close>\<close>

definition simple_lmk_trigger :: "lmk_state \<Rightarrow> lmk_state" where
  "simple_lmk_trigger s =
     (let (ret, v) = atomic_cmpxchg (needs_reclaim s) 0 1;
          s1 = s\<lparr>needs_reclaim := v\<rparr>
      in if ret = 0 then s1\<lparr>trace := trace s1 @ [Wake_Up]\<rparr> else s1)"

text \<open>\<^verbatim>\<open>if (pressure >= 90) simple_lmk_trigger();\<close>\<close>

definition simple_lmk_vmpressure_cb :: "ulong \<Rightarrow> lmk_state \<Rightarrow> lmk_state" where
  "simple_lmk_vmpressure_cb pressure s = (if pressure \<ge> 90 then simple_lmk_trigger s else s)"

text \<open>
  The arguments of the display notifier. The header that gives the constants their
  numbers is not among the sources; the callback only tests them for equality, so each
  is a constructor, with one more for every other value.
\<close>

datatype drm_event = MSM_DRM_EVENT_BLANK | Other_Event

datatype drm_display = MSM_DRM_PRIMARY_DISPLAY | Other_Display

datatype drm_blank = MSM_DRM_BLANK_UNBLANK | MSM_DRM_BLANK_POWERDOWN | Other_Blank

record msm_drm_notifier =
  evdata_id :: drm_display
  evdata_data :: "drm_blank option"

definition msm_drm_notifier_callback ::
  "drm_event \<Rightarrow> msm_drm_notifier option \<Rightarrow> lmk_state \<Rightarrow> lmk_state" where
  "msm_drm_notifier_callback event evdata s =
     (if event \<noteq> MSM_DRM_EVENT_BLANK then s
      else case evdata of
        None \<Rightarrow> s
      | Some ev \<Rightarrow>
          (case evdata_data ev of
             None \<Rightarrow> s
           | Some blank \<Rightarrow>
               if evdata_id ev \<noteq> MSM_DRM_PRIMARY_DISPLAY then s
               else (case blank of
                  MSM_DRM_BLANK_POWERDOWN \<Rightarrow>
                    if \<not> screen_on s then s else s\<lparr>screen_on := False, min_pressure := 95\<rparr>
                | MSM_DRM_BLANK_UNBLANK \<Rightarrow>
                    if screen_on s then s else s\<lparr>screen_on := True, min_pressure := 100\<rparr>
                | Other_Blank \<Rightarrow> s)))"

text \<open>
  The worker \<^verbatim>\<open>simple_lmk_reclaim_thread\<close> loops for ever over
  \<^verbatim>\<open>wait_event_freezable(oom_waitq, atomic_read(&needs_reclaim)); scan_and_kill();
  atomic_set_release(&needs_reclaim, 0);\<close>
  The system is the module's state, where the worker is in its loop (asleep in the wait,
  or inside \<^verbatim>\<open>scan_and_kill\<close>) and the number of reclaim cycles it has begun. The
  steps of a run are atomic: a trigger call, the worker leaving the wait because the
  flag is set, and the worker finishing its cycle and clearing the flag.
  \<^verbatim>\<open>scan_and_kill\<close> does not touch \<^verbatim>\<open>needs_reclaim\<close>, so its effect is taken at the
  step that finishes the cycle.
\<close>

record lmk_system =
  lmk :: lmk_state
  worker_in_cycle :: bool
  cycles :: nat

datatype action =
    Trigger
  | Worker_Wakes
  | Worker_Finishes "task_struct list" ulong "(bool \<times> nat option) list"

fun step :: "action \<Rightarrow> lmk_system \<Rightarrow> lmk_system" where
  "step Trigger sys = sys\<lparr>lmk := simple_lmk_trigger (lmk sys)\<rparr>"
| "step Worker_Wakes sys =
     (if \<not> worker_in_cycle sys \<and> needs_reclaim (lmk sys) \<noteq> 0
      then sys\<lparr>worker_in_cycle := True, cycles := cycles sys + 1\<rparr>
      else sys)"
| "step (Worker_Finishes procs min_free_pages reports) sys =
     (if worker_in_cycle sys
      then sys\<lparr>lmk := (scan_and_kill procs min_free_pages reports (lmk sys))\<lparr>needs_reclaim := 0\<rparr>,
               worker_in_cycle := False\<rparr>
      else sys)"

fun run :: "action list \<Rightarrow> lmk_system \<Rightarrow> lmk_system" where
  "run [] sys = sys"
| "run (a # as) sys = run as (step a sys)"

text \<open>The module's state when it is loaded: the initialisers of the static variables.\<close>

definition init_state :: lmk_state where
  "init_state =
     \<lparr>victims = (\<lambda>_. \<lparr>tsk = None, mm = None, size_v = 0\<rparr>), task_bucket = (\<lambda>_. []),
      nr_victims = 0, min_pressure = 0, needs_reclaim = 0, nr_killed = 0, screen_on = True,
      reclaim_done = 0, trace = []\<rparr>"

definition init_system :: lmk_system where
  "init_system = \<lparr>lmk = init_state, worker_in_cycle = False, cycles = 0\<rparr>"

text \<open>A blank event of the primary display, and the two the observer acts on.\<close>

definition blank_event :: "drm_blank \<Rightarrow> msm_drm_notifier option" where
  "blank_event b = Some \<lparr>evdata_id = MSM_DRM_PRIMARY_DISPLAY, evdata_data = Some b\<rparr>"

definition display_off :: "lmk_state \<Rightarrow> lmk_state" where
  "display_off s =
     msm_drm_notifier_callback MSM_DRM_EVENT_BLANK (blank_event MSM_DRM_BLANK_POWERDOWN) s"

definition display_wake :: "lmk_state \<Rightarrow> lmk_state" where
  "display_wake s =
     msm_drm_notifier_callback MSM_DRM_EVENT_BLANK (blank_event MSM_DRM_BLANK_UNBLANK) s"

section \<open>Notions the properties are stated with\<close>

text \<open>The record that the scanner writes for a task whose address space it has locked.\<close>

definition victim_of :: "locked_task \<Rightarrow> victim_info" where
  "victim_of vtsk =
     \<lparr>tsk = Some (lt_tsk vtsk), mm = Some (lt_mm vtsk),
      size_v = get_total_mm_pages (mm_counters vtsk)\<rparr>"

text \<open>
  The candidates of a chain, in chain order: the tasks for which
  \<^verbatim>\<open>find_lock_task_mm\<close> finds an address space, as victim records.
\<close>

definition candidates :: "task_struct list \<Rightarrow> victim_info list" where
  "candidates chain = map victim_of (List.map_filter find_lock_task_mm chain)"

text \<open>
  The sizes of some victims added up the way the code adds them, in an
  \<^verbatim>\<open>unsigned long\<close>, and as the number of pages they hold.
\<close>

definition wsum :: "victim_info list \<Rightarrow> ulong" where
  "wsum xs = sum_list (map size_v xs)"

definition total_pages :: "victim_info list \<Rightarrow> nat" where
  "total_pages xs = sum_list (map (\<lambda>x. unat (size_v x)) xs)"

text \<open>The table indices written, the buckets walked, and the calls out of the module.\<close>

fun writes_of :: "event list \<Rightarrow> nat list" where
  "writes_of [] = []"
| "writes_of (Victim_Write k # es) = k # writes_of es"
| "writes_of (e # es) = writes_of es"

fun buckets_of :: "event list \<Rightarrow> nat list" where
  "buckets_of [] = []"
| "buckets_of (Consume_Bucket k # es) = k # buckets_of es"
| "buckets_of (e # es) = buckets_of es"

fun calls_of :: "event list \<Rightarrow> event list" where
  "calls_of [] = []"
| "calls_of (Victim_Write k # es) = calls_of es"
| "calls_of (Consume_Bucket k # es) = calls_of es"
| "calls_of (e # es) = e # calls_of es"

text \<open>
  The candidates in the buckets \<open>lo\<close> to \<open>hi\<close>, in the order the scan meets them: from
  the highest bucket down.
\<close>

definition bucket_cands :: "(nat \<Rightarrow> task_struct list) \<Rightarrow> int \<Rightarrow> int \<Rightarrow> victim_info list" where
  "bucket_cands tb lo hi = concat (map (\<lambda>k. candidates (tb (nat k))) (rev [lo..hi]))"

text \<open>The candidates of a scan: the eligible processes that still have an address space.\<close>

definition eligible_candidates :: "task_struct list \<Rightarrow> victim_info list" where
  "eligible_candidates procs = candidates (filter eligible procs)"

definition adj_of :: "task_struct \<Rightarrow> int" where
  "adj_of t = sint (oom_score_adj t)"

text \<open>
  The \<^verbatim>\<open>task_unlock\<close> calls that release the table entries \<open>lo\<close> to \<open>hi - 1\<close>, and the
  calls of the kill loop for them, in index order.
\<close>

definition unlocks :: "lmk_state \<Rightarrow> nat \<Rightarrow> nat \<Rightarrow> event list" where
  "unlocks s lo hi = map (\<lambda>j. Task_Unlock (tsk (victims s j))) [lo ..< hi]"

definition kills :: "lmk_state \<Rightarrow> nat \<Rightarrow> nat \<Rightarrow> event list" where
  "kills s lo hi =
     concat (map (\<lambda>j. [Send_Sigkill (tsk (victims s j)), Expedite (tsk (victims s j)),
                        Task_Unlock (tsk (victims s j))]) [lo ..< hi])"

(*DEFS-END*)

declare bucket_loop.simps [simp del] process_victims_loop.simps [simp del]
  kill_loop.simps [simp del] mm_freed_loop.simps [simp del]

section \<open>Slices, sorting and sums\<close>

lemma slice_0 [simp]: "slice tab lo 0 = []"
  by (simp add: slice_def)

lemma length_slice [simp]: "length (slice tab lo num) = num"
  by (simp add: slice_def)

lemma nth_slice [simp]: "k < num \<Longrightarrow> slice tab lo num ! k = tab (lo + k)"
  by (simp add: slice_def)

lemma slice_Suc: "slice tab lo (Suc num) = slice tab lo num @ [tab (lo + num)]"
  by (simp add: slice_def)

lemma slice_add: "slice tab lo (m + n) = slice tab lo m @ slice tab (lo + m) n"
proof -
  have "[lo ..< lo + (m + n)] = [lo ..< lo + m] @ [lo + m ..< lo + m + n]"
    using upt_add_eq_append [of lo "lo + m" n] by (simp add: add.assoc)
  then show ?thesis by (simp add: slice_def)
qed

lemma slice_cong: "(\<And>k. lo \<le> k \<Longrightarrow> k < lo + num \<Longrightarrow> tab k = tab' k) \<Longrightarrow> slice tab lo num = slice tab' lo num"
  by (simp add: slice_def)

lemma put_slice_Nil [simp]: "put_slice tab lo [] = tab"
  by (auto simp: put_slice_def fun_eq_iff)

lemma put_slice_Cons: "put_slice (tab(lo := x)) (Suc lo) xs = put_slice tab lo (x # xs)"
proof (rule ext)
  fix k
  show "put_slice (tab(lo := x)) (Suc lo) xs k = put_slice tab lo (x # xs) k"
  proof (cases "k \<le> lo")
    case True
    then show ?thesis by (auto simp: put_slice_def)
  next
    case False
    then obtain j where "k = Suc lo + j" by (metis not_less_eq_eq le_Suc_ex)
    then show ?thesis by (simp add: put_slice_def)
  qed
qed

lemma slice_put_slice [simp]: "slice (put_slice tab lo xs) lo (length xs) = xs"
  by (simp add: list_eq_iff_nth_eq put_slice_def)

lemma put_slice_outside: "k < lo \<or> lo + length xs \<le> k \<Longrightarrow> put_slice tab lo xs k = tab k"
  by (auto simp: put_slice_def)

lemma slice_put_slice_below: "lo' + num \<le> lo \<Longrightarrow> slice (put_slice tab lo xs) lo' num = slice tab lo' num"
  by (rule slice_cong) (simp add: put_slice_def)

lemma put_slice_slice [simp]: "put_slice tab lo (slice tab lo num) = tab"
  by (auto simp: put_slice_def fun_eq_iff)

lemma put_slice_put_slice: "length ys = length xs \<Longrightarrow> put_slice (put_slice tab lo xs) lo ys = put_slice tab lo ys"
  by (auto simp: put_slice_def fun_eq_iff)

lemma mset_sort_insert [simp]: "mset (sort_insert c x xs) = add_mset x (mset xs)"
  by (induction xs) auto

lemma mset_sort_c [simp]: "mset (sort_c c xs) = mset xs"
  by (induction xs) auto

lemma length_sort_c [simp]: "length (sort_c c xs) = length xs"
  by (metis mset_sort_c size_mset)

lemma sort_c_Nil_iff [simp]: "sort_c c xs = [] \<longleftrightarrow> xs = []"
  by (metis length_sort_c length_0_conv)

lemma candidates_Nil [simp]: "candidates [] = []"
  by (simp add: candidates_def List.map_filter_simps)

lemma candidates_Cons:
  "candidates (t # chain) =
     (case find_lock_task_mm t of None \<Rightarrow> candidates chain
      | Some vtsk \<Rightarrow> victim_of vtsk # candidates chain)"
  by (simp add: candidates_def List.map_filter_simps split: option.splits)

lemma wsum_simps [simp]: "wsum [] = 0" "wsum (x # xs) = size_v x + wsum xs"
  "wsum (xs @ ys) = wsum xs + wsum ys"
  by (simp_all add: wsum_def)

lemma wsum_mset: "mset xs = mset ys \<Longrightarrow> wsum xs = wsum ys"
  unfolding wsum_def by (metis mset_map sum_mset_sum_list)

lemma total_pages_simps [simp]: "total_pages [] = 0" "total_pages (x # xs) = unat (size_v x) + total_pages xs"
  "total_pages (xs @ ys) = total_pages xs + total_pages ys"
  by (simp_all add: total_pages_def)

lemma total_pages_mset: "mset xs = mset ys \<Longrightarrow> total_pages xs = total_pages ys"
  unfolding total_pages_def by (metis mset_map sum_mset_sum_list)

lemma unat_wsum_le: "unat (wsum xs) \<le> total_pages xs"
proof (induction xs)
  case Nil
  then show ?case by simp
next
  case (Cons x xs)
  have "unat (size_v x + wsum xs) \<le> unat (size_v x) + unat (wsum xs)"
    by (simp add: unat_word_ariths)
  with Cons show ?case by simp
qed

lemma unat_wsum_eq: "total_pages xs < 2 ^ 64 \<Longrightarrow> unat (wsum xs) = total_pages xs"
proof (induction xs)
  case Nil
  then show ?case by simp
next
  case (Cons x xs)
  then have "unat (wsum xs) = total_pages xs" by simp
  with Cons.prems show ?case
    by (simp add: unat_word_ariths)
qed

lemma walk_chain_eq:
  "v < MAX_VICTIMS \<Longrightarrow>
   walk_chain chain v pf s =
     (let new = take (MAX_VICTIMS - v) (candidates chain)
      in (v + length new, pf + wsum new,
          s\<lparr>victims := put_slice (victims s) v new,
            trace := trace s @ map Victim_Write [v ..< v + length new]\<rparr>))"
proof (induction chain arbitrary: v pf s)
  case Nil
  then show ?case by simp
next
  case (Cons t chain)
  show ?case
  proof (cases "find_lock_task_mm t")
    case None
    then show ?thesis using Cons by (simp add: candidates_Cons)
  next
    case (Some vtsk)
    show ?thesis
    proof (cases "v + 1 = MAX_VICTIMS")
      case True
      then have eq: "MAX_VICTIMS - v = Suc 0" "v + Suc 0 = MAX_VICTIMS" by simp_all
      have w: "walk_chain (t # chain) v pf s =
        (v + 1, pf + size_v (victim_of vtsk),
          s\<lparr>victims := (victims s)(v := victim_of vtsk), trace := trace s @ [Victim_Write v]\<rparr>)"
        using Some True by (simp add: victim_of_def Let_def)
      have c: "take (MAX_VICTIMS - v) (candidates (t # chain)) = [victim_of vtsk]"
        using Some by (simp add: eq candidates_Cons)
      show ?thesis unfolding w c Let_def
        by (simp flip: put_slice_Cons)
    next
      case False
      with Cons.prems have lt: "Suc v < MAX_VICTIMS" by simp
      then have m: "MAX_VICTIMS - v = Suc (MAX_VICTIMS - Suc v)" by simp
      define new' where "new' = take (MAX_VICTIMS - Suc v) (candidates chain)"
      define s1 where "s1 = s\<lparr>victims := (victims s)(v := victim_of vtsk),
                                trace := trace s @ [Victim_Write v]\<rparr>"
      have w: "walk_chain (t # chain) v pf s =
                 walk_chain chain (Suc v) (pf + size_v (victim_of vtsk)) s1"
        using Some False by (simp add: victim_of_def Let_def s1_def)
      have c: "take (MAX_VICTIMS - v) (candidates (t # chain)) = victim_of vtsk # new'"
        using Some by (simp add: m candidates_Cons new'_def)
      have u: "[v ..< v + length (victim_of vtsk # new')] = v # [Suc v ..< Suc v + length new']"
        by (subst upt_rec) simp
      have ih: "walk_chain chain (Suc v) (pf + size_v (victim_of vtsk)) s1 =
          (Suc v + length new', pf + size_v (victim_of vtsk) + wsum new',
           s1\<lparr>victims := put_slice (victims s1) (Suc v) new',
              trace := trace s1 @ map Victim_Write [Suc v ..< Suc v + length new']\<rparr>)"
        using Cons.IH [OF lt, of "pf + size_v (victim_of vtsk)" s1]
        by (simp add: Let_def new'_def)
      have v1: "put_slice (victims s1) (Suc v) new' = put_slice (victims s) v (victim_of vtsk # new')"
        by (simp add: s1_def put_slice_Cons)
      have t1: "trace s1 @ map Victim_Write [Suc v ..< Suc v + length new'] =
                trace s @ map Victim_Write [v ..< v + length (victim_of vtsk # new')]"
        unfolding u by (simp add: s1_def)
      show ?thesis
        unfolding w c Let_def ih v1 t1
        by (simp add: s1_def add.assoc)
    qed
  qed
qed


section \<open>The scan, step by step\<close>

lemma put_slice_append:
  "put_slice (put_slice tab lo xs) (lo + length xs) ys = put_slice tab lo (xs @ ys)"
  by (auto simp: put_slice_def fun_eq_iff nth_append)

lemma take_candidates_Nil:
  "v < MAX_VICTIMS \<Longrightarrow> take (MAX_VICTIMS - v) xs = [] \<longleftrightarrow> xs = []"
  by (cases xs) auto

lemma sort_victims_after_walk:
  "sort_victims v (length new)
     (s\<lparr>victims := put_slice tab v new, trace := tr\<rparr>) =
   s\<lparr>victims := put_slice tab v (sort_c victim_cmp new), trace := tr\<rparr>"
  by (simp add: sort_victims_def put_slice_put_slice)

lemma bucket_loop_unfold:
  assumes "v < MAX_VICTIMS" "min_adj \<le> i"
  shows "bucket_loop mf min_adj i v pf s =
    (let chain = task_bucket s (nat i);
         new = take (MAX_VICTIMS - v) (candidates chain);
         s1 = s\<lparr>task_bucket := (task_bucket s)(nat i := []),
                trace := trace s @ [Consume_Bucket (nat i)]\<rparr>;
         s3 = s1\<lparr>victims := put_slice (victims s) v (sort_c victim_cmp new),
                 trace := trace s1 @ map Victim_Write [v ..< v + length new]\<rparr>
     in if chain = [] then bucket_loop mf min_adj (i - 1) v pf s
        else if new = [] then bucket_loop mf min_adj (i - 1) v pf s1
        else if v + length new = MAX_VICTIMS \<or> mf \<le> pf + wsum new
        then (v + length new, pf + wsum new,
              if i > min_adj then s3\<lparr>task_bucket := memset_buckets (task_bucket s3) min_adj i\<rparr>
              else s3)
        else bucket_loop mf min_adj (i - 1) (v + length new) (pf + wsum new) s3)"
proof (cases "task_bucket s (nat i)")
  case Nil
  then show ?thesis using assms by (subst bucket_loop.simps) (simp add: Let_def del: bucket_loop.simps)
next
  case (Cons t chain)
  define new where "new = take (MAX_VICTIMS - v) (candidates (t # chain))"
  define s1 where "s1 = s\<lparr>task_bucket := (task_bucket s)(nat i := []),
                trace := trace s @ [Consume_Bucket (nat i)]\<rparr>"
  have w: "walk_chain (t # chain) v pf s1 =
      (v + length new, pf + wsum new,
       s1\<lparr>victims := put_slice (victims s1) v new,
          trace := trace s1 @ map Victim_Write [v ..< v + length new]\<rparr>)"
    using walk_chain_eq [OF assms(1), of "t # chain" pf s1] by (simp add: Let_def new_def)
  have vs1: "victims s1 = victims s"
    by (simp add: s1_def)
  show ?thesis
  proof (cases "new = []")
    case True
    have "bucket_loop mf min_adj i v pf s = bucket_loop mf min_adj (i - 1) v pf s1"
      using assms Cons w True
      by (subst bucket_loop.simps) (simp add: Let_def del: walk_chain.simps bucket_loop.simps flip: s1_def)
    then show ?thesis using Cons True by (simp add: Let_def del: bucket_loop.simps flip: s1_def new_def)
  next
    case False
    have "bucket_loop mf min_adj i v pf s =
      (let s3 = s1\<lparr>victims := put_slice (victims s) v (sort_c victim_cmp new),
                 trace := trace s1 @ map Victim_Write [v ..< v + length new]\<rparr>
       in if v + length new = MAX_VICTIMS \<or> mf \<le> pf + wsum new
        then (v + length new, pf + wsum new,
              if i > min_adj then s3\<lparr>task_bucket := memset_buckets (task_bucket s3) min_adj i\<rparr>
              else s3)
        else bucket_loop mf min_adj (i - 1) (v + length new) (pf + wsum new) s3)"
      using assms Cons False
      by (subst bucket_loop.simps) (simp add: Let_def w vs1 sort_victims_after_walk del: walk_chain.simps bucket_loop.simps flip: s1_def)
    then show ?thesis using Cons False by (simp add: Let_def del: bucket_loop.simps flip: s1_def new_def)
  qed
qed



lemma writes_of_append [simp]: "writes_of (xs @ ys) = writes_of xs @ writes_of ys"
  by (induction xs rule: writes_of.induct) auto

lemma calls_of_append [simp]: "calls_of (xs @ ys) = calls_of xs @ calls_of ys"
  by (induction xs rule: calls_of.induct) auto

lemma buckets_of_append [simp]: "buckets_of (xs @ ys) = buckets_of xs @ buckets_of ys"
  by (induction xs rule: buckets_of.induct) auto

lemma writes_of_map_write [simp]: "writes_of (map Victim_Write ks) = ks"
  by (induction ks) auto

lemma calls_of_map_write [simp]: "calls_of (map Victim_Write ks) = []"
  by (induction ks) auto

lemma bucket_cands_empty: "hi < lo \<Longrightarrow> bucket_cands tb lo hi = []"
  by (simp add: bucket_cands_def)

lemma bucket_cands_step:
  "lo \<le> hi \<Longrightarrow> bucket_cands tb lo hi = candidates (tb (nat hi)) @ bucket_cands tb lo (hi - 1)"
  by (simp add: bucket_cands_def upto_rec2)

lemma bucket_cands_cong:
  "(\<And>k. lo \<le> k \<Longrightarrow> k \<le> hi \<Longrightarrow> tb (nat k) = tb' (nat k)) \<Longrightarrow>
   bucket_cands tb lo hi = bucket_cands tb' lo hi"
proof -
  assume a: "\<And>k. lo \<le> k \<Longrightarrow> k \<le> hi \<Longrightarrow> tb (nat k) = tb' (nat k)"
  have "map (\<lambda>k. candidates (tb (nat k))) (rev [lo..hi]) =
        map (\<lambda>k. candidates (tb' (nat k))) (rev [lo..hi])"
    by (rule map_cong) (simp_all add: a)
  then show ?thesis unfolding bucket_cands_def by (rule arg_cong [where f = concat])
qed

lemma memset_buckets_none: "hi \<le> lo \<Longrightarrow> memset_buckets tb lo hi = tb"
  by (auto simp: memset_buckets_def fun_eq_iff)

lemma memset_buckets_step_empty:
  "0 \<le> lo \<Longrightarrow> lo \<le> i \<Longrightarrow> tb (nat i) = [] \<Longrightarrow>
   memset_buckets tb lo i = memset_buckets tb lo (i + 1)"
  by (auto simp: memset_buckets_def fun_eq_iff)

lemma memset_buckets_step_upd:
  "0 \<le> lo \<Longrightarrow> lo \<le> i \<Longrightarrow>
   memset_buckets (tb(nat i := [])) lo i = memset_buckets tb lo (i + 1)"
  by (auto simp: memset_buckets_def fun_eq_iff)

lemma bucket_loop_result:
  assumes "v < MAX_VICTIMS" "0 \<le> min_adj"
  shows "\<exists>found evs.
      bucket_loop mf min_adj i v pf s =
        (v + length found, pf + wsum found,
         s\<lparr>task_bucket := memset_buckets (task_bucket s) min_adj (i + 1),
           victims := put_slice (victims s) v found,
           trace := trace s @ evs\<rparr>) \<and>
      v + length found \<le> MAX_VICTIMS \<and>
      writes_of evs = [v ..< v + length found] \<and> calls_of evs = [] \<and>
      mset found \<subseteq># mset (bucket_cands (task_bucket s) min_adj i) \<and>
      (mf \<le> pf + wsum found \<or> v + length found = MAX_VICTIMS \<or>
       mset found = mset (bucket_cands (task_bucket s) min_adj i))"
  using assms(1)
proof (induction "nat (i + 1 - min_adj)" arbitrary: i v pf s)
  case 0
  then have lt: "i < min_adj" by simp
  then have "bucket_loop mf min_adj i v pf s = (v, pf, s)"
    by (subst bucket_loop.simps) simp
  then show ?case using lt "0.prems"
    by (intro exI [of _ "[]"]) (simp add: memset_buckets_none bucket_cands_empty)
next
  case (Suc n)
  then have ge: "min_adj \<le> i" and n: "n = nat (i - 1 + 1 - min_adj)" by simp_all
  define chain where "chain = task_bucket s (nat i)"
  define new where "new = take (MAX_VICTIMS - v) (candidates chain)"
  define s1 where "s1 = s\<lparr>task_bucket := (task_bucket s)(nat i := []),
                trace := trace s @ [Consume_Bucket (nat i)]\<rparr>"
  define s3 where "s3 = s1\<lparr>victims := put_slice (victims s) v (sort_c victim_cmp new),
                 trace := trace s1 @ map Victim_Write [v ..< v + length new]\<rparr>"
  note unf = bucket_loop_unfold [OF Suc.prems ge, of mf pf s, unfolded Let_def,
      folded chain_def, folded new_def, folded s1_def, folded s3_def]
  have bc: "bucket_cands (task_bucket s) min_adj i =
            candidates chain @ bucket_cands (task_bucket s) min_adj (i - 1)"
    using ge by (simp add: bucket_cands_step chain_def)
  have bc1: "bucket_cands (task_bucket s1) min_adj (i - 1) =
             bucket_cands (task_bucket s) min_adj (i - 1)"
    using assms(2) by (intro bucket_cands_cong) (auto simp: s1_def nat_eq_iff)
  have bc3: "bucket_cands (task_bucket s3) min_adj (i - 1) =
             bucket_cands (task_bucket s) min_adj (i - 1)"
    using bc1 by (simp add: s3_def)
  have len_new: "v + length new \<le> MAX_VICTIMS"
    using Suc.prems by (simp add: new_def)
  show ?case
  proof (cases "chain = []")
    case True
    from Suc.hyps(1) [OF n Suc.prems, of pf s] obtain found evs where
      ih: "bucket_loop mf min_adj (i - 1) v pf s =
        (v + length found, pf + wsum found,
         s\<lparr>task_bucket := memset_buckets (task_bucket s) min_adj (i - 1 + 1),
           victims := put_slice (victims s) v found,
           trace := trace s @ evs\<rparr>)"
      and rest: "v + length found \<le> MAX_VICTIMS"
        "writes_of evs = [v ..< v + length found]" "calls_of evs = []"
        "mset found \<subseteq># mset (bucket_cands (task_bucket s) min_adj (i - 1))"
        "mf \<le> pf + wsum found \<or> v + length found = MAX_VICTIMS \<or>
         mset found = mset (bucket_cands (task_bucket s) min_adj (i - 1))"
      by blast
    have m: "memset_buckets (task_bucket s) min_adj (i - 1 + 1) =
             memset_buckets (task_bucket s) min_adj (i + 1)"
      using memset_buckets_step_empty [OF assms(2) ge, of "task_bucket s"] True
      by (simp add: chain_def)
    have "bucket_loop mf min_adj i v pf s = bucket_loop mf min_adj (i - 1) v pf s"
      using unf True by simp
    then show ?thesis
      using ih rest True unfolding m bc
      by (intro exI [of _ found] exI [of _ evs]) simp
  next
    case ne: False
    show ?thesis
    proof (cases "new = []")
      case True
      then have cn: "candidates chain = []"
        using Suc.prems by (cases "candidates chain") (auto simp: new_def)
      from Suc.hyps(1) [OF n Suc.prems, of pf s1] obtain found evs where
        ih: "bucket_loop mf min_adj (i - 1) v pf s1 =
          (v + length found, pf + wsum found,
           s1\<lparr>task_bucket := memset_buckets (task_bucket s1) min_adj (i - 1 + 1),
             victims := put_slice (victims s1) v found,
             trace := trace s1 @ evs\<rparr>)"
        and rest: "v + length found \<le> MAX_VICTIMS"
          "writes_of evs = [v ..< v + length found]" "calls_of evs = []"
          "mset found \<subseteq># mset (bucket_cands (task_bucket s1) min_adj (i - 1))"
          "mf \<le> pf + wsum found \<or> v + length found = MAX_VICTIMS \<or>
           mset found = mset (bucket_cands (task_bucket s1) min_adj (i - 1))"
        by blast
      have m: "memset_buckets (task_bucket s1) min_adj (i - 1 + 1) =
               memset_buckets (task_bucket s) min_adj (i + 1)"
        using memset_buckets_step_upd [OF assms(2) ge, of "task_bucket s"]
        by (simp add: s1_def)
      have st: "s1\<lparr>task_bucket := memset_buckets (task_bucket s) min_adj (i + 1),
             victims := put_slice (victims s1) v found,
             trace := trace s1 @ evs\<rparr> =
            s\<lparr>task_bucket := memset_buckets (task_bucket s) min_adj (i + 1),
             victims := put_slice (victims s) v found,
             trace := trace s @ (Consume_Bucket (nat i) # evs)\<rparr>"
        by (simp add: s1_def)
      have "bucket_loop mf min_adj i v pf s = bucket_loop mf min_adj (i - 1) v pf s1"
        using unf ne True by simp
      then show ?thesis
        using ih rest unfolding m bc bc1 cn st
        by (intro exI [of _ found] exI [of _ "Consume_Bucket (nat i) # evs"]) simp
    next
      case nn: False
      let ?found = "sort_c victim_cmp new"
      let ?evs = "Consume_Bucket (nat i) # map Victim_Write [v ..< v + length new]"
      have sub_new: "mset new \<subseteq># mset (candidates chain)"
        unfolding new_def by (metis append_take_drop_id mset_append mset_subset_eq_add_left)
      show ?thesis
      proof (cases "v + length new = MAX_VICTIMS \<or> mf \<le> pf + wsum new")
        case True
        have m: "memset_buckets (task_bucket s1) min_adj i =
                 memset_buckets (task_bucket s) min_adj (i + 1)"
          using memset_buckets_step_upd [OF assms(2) ge, of "task_bucket s"]
          by (simp add: s1_def)
        have m': "i = min_adj \<Longrightarrow> task_bucket s1 = memset_buckets (task_bucket s) min_adj (i + 1)"
          using m memset_buckets_none [of i min_adj "task_bucket s1"] by simp
        have "bucket_loop mf min_adj i v pf s =
              (v + length new, pf + wsum new,
               if i > min_adj then s3\<lparr>task_bucket := memset_buckets (task_bucket s3) min_adj i\<rparr>
               else s3)"
          using unf ne nn True by simp
        also have "(if i > min_adj then s3\<lparr>task_bucket := memset_buckets (task_bucket s3) min_adj i\<rparr>
               else s3) =
            s\<lparr>task_bucket := memset_buckets (task_bucket s) min_adj (i + 1),
              victims := put_slice (victims s) v ?found,
              trace := trace s @ ?evs\<rparr>"
        proof (cases "i > min_adj")
          case True
          then show ?thesis using m by (simp add: s3_def s1_def)
        next
          case False
          with ge have "i = min_adj" by simp
          from m' [OF this] show ?thesis using False
            by (simp add: s3_def) (simp add: s1_def)
        qed
        finally have eq: "bucket_loop mf min_adj i v pf s =
            (v + length ?found, pf + wsum ?found,
             s\<lparr>task_bucket := memset_buckets (task_bucket s) min_adj (i + 1),
               victims := put_slice (victims s) v ?found,
               trace := trace s @ ?evs\<rparr>)"
          by (simp add: wsum_mset [of ?found new])
        have "mset ?found \<subseteq># mset (bucket_cands (task_bucket s) min_adj i)"
          unfolding bc using sub_new by (simp add: subset_mset.le_supI1 subset_mset.add_increasing2)
        moreover have "mf \<le> pf + wsum ?found \<or> v + length ?found = MAX_VICTIMS \<or>
            mset ?found = mset (bucket_cands (task_bucket s) min_adj i)"
          using True by (auto simp: wsum_mset [of ?found new])
        ultimately show ?thesis
          using eq len_new
          by (intro exI [of _ ?found] exI [of _ ?evs]) simp
      next
        case False
        then have lt: "v + length new < MAX_VICTIMS" and nf: "\<not> mf \<le> pf + wsum new"
          using len_new by simp_all
        have all_new: "new = candidates chain"
          using lt unfolding new_def by (simp add: min_def split: if_splits)
        from Suc.hyps(1) [OF n lt, of "pf + wsum new" s3] obtain found evs where
          ih: "bucket_loop mf min_adj (i - 1) (v + length new) (pf + wsum new) s3 =
            (v + length new + length found, pf + wsum new + wsum found,
             s3\<lparr>task_bucket := memset_buckets (task_bucket s3) min_adj (i - 1 + 1),
               victims := put_slice (victims s3) (v + length new) found,
               trace := trace s3 @ evs\<rparr>)"
          and rest: "v + length new + length found \<le> MAX_VICTIMS"
            "writes_of evs = [v + length new ..< v + length new + length found]"
            "calls_of evs = []"
            "mset found \<subseteq># mset (bucket_cands (task_bucket s3) min_adj (i - 1))"
            "mf \<le> pf + wsum new + wsum found \<or> v + length new + length found = MAX_VICTIMS \<or>
             mset found = mset (bucket_cands (task_bucket s3) min_adj (i - 1))"
          by blast
        have m: "memset_buckets (task_bucket s3) min_adj (i - 1 + 1) =
                 memset_buckets (task_bucket s) min_adj (i + 1)"
          using memset_buckets_step_upd [OF assms(2) ge, of "task_bucket s"]
          by (simp add: s3_def s1_def)
        have ps: "put_slice (victims s3) (v + length new) found =
                  put_slice (victims s) v (?found @ found)"
          using put_slice_append [of "victims s" v ?found found] by (simp add: s3_def)
        have st: "s3\<lparr>task_bucket := memset_buckets (task_bucket s) min_adj (i + 1),
               victims := put_slice (victims s) v (?found @ found),
               trace := trace s3 @ evs\<rparr> =
            s\<lparr>task_bucket := memset_buckets (task_bucket s) min_adj (i + 1),
               victims := put_slice (victims s) v (?found @ found),
               trace := trace s @ (?evs @ evs)\<rparr>"
          by (simp add: s3_def s1_def)
        have "bucket_loop mf min_adj i v pf s =
              bucket_loop mf min_adj (i - 1) (v + length new) (pf + wsum new) s3"
          using unf ne nn False by simp
        then have eq: "bucket_loop mf min_adj i v pf s =
            (v + length (?found @ found), pf + wsum (?found @ found),
             s\<lparr>task_bucket := memset_buckets (task_bucket s) min_adj (i + 1),
               victims := put_slice (victims s) v (?found @ found),
               trace := trace s @ (?evs @ evs)\<rparr>)"
          unfolding ih m ps st by (simp add: wsum_mset [of ?found new] add.assoc)
        have u: "[v ..< v + length new + length found] =
                 [v ..< v + length new] @ [v + length new ..< v + length new + length found]"
          by (rule upt_add_eq_append) simp
        have w: "writes_of (?evs @ evs) = [v ..< v + length (?found @ found)]"
          using rest(2) u by (simp add: add.assoc)
        have mc: "mset new = mset (candidates chain)"
          using all_new by simp
        have ws: "wsum ?found = wsum new"
          by (rule wsum_mset) simp
        have sub: "mset (?found @ found) \<subseteq># mset (bucket_cands (task_bucket s) min_adj i)"
          unfolding bc using rest(4) [unfolded bc3] mc
          by (simp add: subset_mset.add_mono)
        have stop: "mf \<le> pf + wsum (?found @ found) \<or>
            v + length (?found @ found) = MAX_VICTIMS \<or>
            mset (?found @ found) = mset (bucket_cands (task_bucket s) min_adj i)"
          unfolding bc using rest(5) [unfolded bc3] mc
          by (auto simp: ws add.assoc)
        show ?thesis
          using eq w sub stop rest(1,3)
          by (intro exI [of _ "?found @ found"] exI [of _ "?evs @ evs"])
             (simp add: add.assoc)
      qed
    qed
  qed
qed

lemma candidates_append [simp]: "candidates (xs @ ys) = candidates xs @ candidates ys"
  by (induction xs) (auto simp: candidates_Cons split: option.splits)

lemma mset_candidates_rev [simp]: "mset (candidates (rev xs)) = mset (candidates xs)"
  by (induction xs) (auto simp: candidates_Cons split: option.splits)

lemma bucket_tasks_result:
  "bucket_tasks procs tb mn mx = (tb', mn', mx') \<Longrightarrow>
   (\<forall>k. tb' k = rev (filter (\<lambda>t. eligible t \<and> nat (adj_of t) = k) procs) @ tb k) \<and>
   mn' \<le> mn \<and> mx \<le> mx' \<and> (0 \<le> mn \<longrightarrow> 0 \<le> mn') \<and>
   (\<forall>t \<in> set procs. eligible t \<longrightarrow> mn' \<le> adj_of t \<and> adj_of t \<le> mx')"
proof (induction procs arbitrary: tb mn mx)
  case Nil
  then show ?case by simp
next
  case (Cons t ts)
  show ?case
  proof (cases "eligible t")
    case False
    then have "bucket_tasks (t # ts) tb mn mx = bucket_tasks ts tb mn mx"
      by (auto simp: eligible_def Let_def)
    with Cons.prems have "bucket_tasks ts tb mn mx = (tb', mn', mx')" by simp
    from Cons.IH [OF this] False show ?thesis by simp
  next
    case True
    let ?adj = "adj_of t"
    have ge: "0 \<le> ?adj" using True by (simp add: eligible_def adj_of_def)
    have "bucket_tasks (t # ts) tb mn mx =
          bucket_tasks ts (tb(nat ?adj := t # tb (nat ?adj)))
            (if ?adj < mn then ?adj else mn) (if ?adj > mx then ?adj else mx)"
      using True by (auto simp: eligible_def Let_def adj_of_def)
    with Cons.prems have "bucket_tasks ts (tb(nat ?adj := t # tb (nat ?adj)))
            (if ?adj < mn then ?adj else mn) (if ?adj > mx then ?adj else mx) = (tb', mn', mx')"
      by simp
    from Cons.IH [OF this] True ge show ?thesis
      by (auto split: if_splits)
  qed
qed

lemma mset_bucket_cands:
  "mset (bucket_cands tb lo hi) = (\<Sum>k\<in>{lo..hi}. mset (candidates (tb (nat k))))"
proof -
  have "mset (bucket_cands tb lo hi) =
        sum_list (map (\<lambda>k. mset (candidates (tb (nat k)))) (rev [lo..hi]))"
    by (simp add: bucket_cands_def mset_concat comp_def rev_map)
  also have "\<dots> = (\<Sum>k\<in>set (rev [lo..hi]). mset (candidates (tb (nat k))))"
    by (rule sum_list_distinct_conv_sum_set) simp
  finally show ?thesis by simp
qed

lemma sum_bucket_candidates:
  assumes "0 \<le> lo" "\<forall>t \<in> set procs. eligible t \<longrightarrow> lo \<le> adj_of t \<and> adj_of t \<le> hi"
  shows "(\<Sum>k\<in>{lo..hi}. mset (candidates (filter (\<lambda>t. eligible t \<and> nat (adj_of t) = nat k) procs))) =
         mset (candidates (filter eligible procs))"
  using assms(2)
proof (induction procs)
  case Nil
  then show ?case by simp
next
  case (Cons t ts)
  then have ih: "(\<Sum>k\<in>{lo..hi}. mset (candidates (filter (\<lambda>t. eligible t \<and> nat (adj_of t) = nat k) ts))) =
         mset (candidates (filter eligible ts))"
    by simp
  show ?case
  proof (cases "eligible t")
    case False
    then show ?thesis using ih by simp
  next
    case True
    with Cons.prems have range: "lo \<le> adj_of t" "adj_of t \<le> hi" by simp_all
    have eq: "\<And>k. k \<in> {lo..hi} \<Longrightarrow>
        mset (candidates (filter (\<lambda>t. eligible t \<and> nat (adj_of t) = nat k) (t # ts))) =
        (if adj_of t = k then mset (candidates [t]) else {#}) +
        mset (candidates (filter (\<lambda>t. eligible t \<and> nat (adj_of t) = nat k) ts))"
      using True range assms(1) by (auto simp: candidates_Cons nat_eq_iff split: option.splits)
    have "(\<Sum>k\<in>{lo..hi}. mset (candidates (filter (\<lambda>t. eligible t \<and> nat (adj_of t) = nat k) (t # ts)))) =
          (\<Sum>k\<in>{lo..hi}. (if adj_of t = k then mset (candidates [t]) else {#}) +
             mset (candidates (filter (\<lambda>t. eligible t \<and> nat (adj_of t) = nat k) ts)))"
      by (rule sum.cong) (simp_all only: eq)
    also have "\<dots> = mset (candidates [t]) + mset (candidates (filter eligible ts))"
      using range by (simp add: sum.distrib ih)
    also have "\<dots> = mset (candidates (filter eligible (t # ts)))"
      using True by (simp add: candidates_Cons split: option.splits)
    finally show ?thesis .
  qed
qed

lemma find_victims_result:
  "\<exists>found evs tbf.
      find_victims procs mf 0 s =
        (length found, wsum found,
         s\<lparr>task_bucket := tbf, victims := put_slice (victims s) 0 found, trace := trace s @ evs\<rparr>) \<and>
      length found \<le> MAX_VICTIMS \<and>
      writes_of evs = [0 ..< length found] \<and> calls_of evs = [] \<and>
      (\<forall>t \<in> set procs. eligible t \<longrightarrow> tbf (nat (adj_of t)) = []) \<and>
      ((\<forall>k. task_bucket s k = []) \<longrightarrow>
         (\<forall>k. tbf k = []) \<and>
         mset found \<subseteq># mset (eligible_candidates procs) \<and>
         (mf \<le> wsum found \<or> length found = MAX_VICTIMS \<or>
          mset found = mset (eligible_candidates procs)))"
proof -
  obtain tb mn mx where bt: "bucket_tasks procs (task_bucket s) SHRT_MAX 0 = (tb, mn, mx)"
    by (metis prod_cases3)
  from bucket_tasks_result [OF bt]
  have tb: "\<And>k. tb k = rev (filter (\<lambda>t. eligible t \<and> nat (adj_of t) = k) procs) @ task_bucket s k"
    and mn: "0 \<le> mn"
    and range: "\<forall>t \<in> set procs. eligible t \<longrightarrow> mn \<le> adj_of t \<and> adj_of t \<le> mx"
    by (simp_all add: SHRT_MAX_def)
  have v0: "(0::nat) < MAX_VICTIMS" by (simp add: MAX_VICTIMS_def)
  from bucket_loop_result [OF v0 mn, of mf mx 0 "s\<lparr>task_bucket := tb\<rparr>"]
  obtain found evs where
    bl: "bucket_loop mf mn mx 0 0 (s\<lparr>task_bucket := tb\<rparr>) =
        (length found, wsum found,
         s\<lparr>task_bucket := memset_buckets tb mn (mx + 1),
           victims := put_slice (victims s) 0 found, trace := trace s @ evs\<rparr>)"
    and rest: "length found \<le> MAX_VICTIMS" "writes_of evs = [0 ..< length found]"
      "calls_of evs = []" "mset found \<subseteq># mset (bucket_cands tb mn mx)"
      "mf \<le> wsum found \<or> length found = MAX_VICTIMS \<or> mset found = mset (bucket_cands tb mn mx)"
    by auto
  have fv: "find_victims procs mf 0 s =
        (length found, wsum found,
         s\<lparr>task_bucket := memset_buckets tb mn (mx + 1),
           victims := put_slice (victims s) 0 found, trace := trace s @ evs\<rparr>)"
    using bt bl by (simp add: find_victims_def)
  have cleared: "\<forall>t \<in> set procs. eligible t \<longrightarrow> memset_buckets tb mn (mx + 1) (nat (adj_of t)) = []"
    using range mn by (auto simp: memset_buckets_def)
  have empty: "(\<forall>k. task_bucket s k = []) \<Longrightarrow>
      (\<forall>k. memset_buckets tb mn (mx + 1) k = []) \<and>
      mset (bucket_cands tb mn mx) = mset (eligible_candidates procs)"
  proof -
    assume e: "\<forall>k. task_bucket s k = []"
    have a: "\<forall>k. memset_buckets tb mn (mx + 1) k = []"
    proof
      fix k
      show "memset_buckets tb mn (mx + 1) k = []"
      proof (cases "mn \<le> int k \<and> int k < mx + 1")
        case True
        then show ?thesis by (simp add: memset_buckets_def)
      next
        case False
        have "\<not> (\<exists>t \<in> set procs. eligible t \<and> nat (adj_of t) = k)"
        proof
          assume "\<exists>t \<in> set procs. eligible t \<and> nat (adj_of t) = k"
          then obtain t where t: "t \<in> set procs" "eligible t" "nat (adj_of t) = k" by blast
          with range have r: "mn \<le> adj_of t" "adj_of t \<le> mx" by auto
          with mn have "int k = adj_of t" using t(3) by simp
          with r False show False by simp
        qed
        then have "filter (\<lambda>t. eligible t \<and> nat (adj_of t) = k) procs = []"
          by (auto simp: filter_empty_conv)
        then show ?thesis using False e by (simp add: memset_buckets_def tb)
      qed
    qed
    have "mset (bucket_cands tb mn mx) =
          (\<Sum>k\<in>{mn..mx}. mset (candidates (filter (\<lambda>t. eligible t \<and> nat (adj_of t) = nat k) procs)))"
      by (simp add: mset_bucket_cands tb e)
    also have "\<dots> = mset (candidates (filter eligible procs))"
      by (rule sum_bucket_candidates [OF mn range])
    finally show ?thesis using a by (simp add: eligible_candidates_def)
  qed
  show ?thesis
    using fv rest cleared empty
    by (intro exI [of _ found] exI [of _ evs] exI [of _ "memset_buckets tb mn (mx + 1)"]) auto
qed


section \<open>The selector's loop and the kill loop\<close>

lemma slice_Cons: "slice tab lo (Suc num) = tab lo # slice tab (Suc lo) num"
proof -
  have "slice tab lo (1 + num) = slice tab lo 1 @ slice tab (lo + 1) num"
    by (rule slice_add)
  moreover have "slice tab lo 1 = [tab lo]"
    by (simp add: slice_def)
  ultimately show ?thesis by simp
qed

lemma unlocks_trace_irrelevant [simp]: "unlocks (s\<lparr>trace := tr\<rparr>) lo hi = unlocks s lo hi"
  by (simp add: unlocks_def)

lemma kills_trace_irrelevant [simp]: "kills (s\<lparr>trace := tr\<rparr>) lo hi = kills s lo hi"
  by (simp add: kills_def)

lemma unlocks_rec: "lo < hi \<Longrightarrow> unlocks s lo hi = Task_Unlock (tsk (victims s lo)) # unlocks s (Suc lo) hi"
  by (simp add: unlocks_def upt_rec [of lo])

lemma unlocks_empty [simp]: "hi \<le> lo \<Longrightarrow> unlocks s lo hi = []"
  by (simp add: unlocks_def)

lemma release_rest:
  "mf \<le> pf \<Longrightarrow> i \<le> vlen \<Longrightarrow>
   process_victims_loop mf vlen i pf n s = (n, s\<lparr>trace := trace s @ unlocks s i vlen\<rparr>)"
proof (induction "vlen - i" arbitrary: i s)
  case 0
  then show ?case by (subst process_victims_loop.simps) simp
next
  case (Suc d)
  then have lt: "i < vlen" and d: "d = vlen - (i + 1)" and le: "i + 1 \<le> vlen" by simp_all
  from Suc.hyps(1) [OF d Suc.prems(1) le, of "s\<lparr>trace := trace s @ [Task_Unlock (tsk (victims s i))]\<rparr>"]
  show ?case using lt Suc.prems(1)
    by (subst process_victims_loop.simps) (simp add: unlocks_rec)
qed

lemma process_victims_loop_result:
  "i \<le> vlen \<Longrightarrow>
   \<exists>k. process_victims_loop mf vlen i pf n s = (n + k, s\<lparr>trace := trace s @ unlocks s (i + k) vlen\<rparr>) \<and>
       i + k \<le> vlen \<and>
       (\<forall>j<k. pf + wsum (slice (victims s) i j) < mf) \<and>
       (i + k < vlen \<longrightarrow> mf \<le> pf + wsum (slice (victims s) i k))"
proof (induction "vlen - i" arbitrary: i pf n)
  case 0
  then have "process_victims_loop mf vlen i pf n s = (n, s)"
    by (subst process_victims_loop.simps) simp
  then show ?case using 0 by (intro exI [of _ 0]) simp
next
  case (Suc d)
  then have lt: "i < vlen" and d: "d = vlen - (i + 1)" and le: "i + 1 \<le> vlen" by simp_all
  show ?case
  proof (cases "mf \<le> pf")
    case True
    from release_rest [OF True Suc.prems, of n s] show ?thesis
      using True Suc.prems by (intro exI [of _ 0]) simp
  next
    case False
    from Suc.hyps(1) [OF d le, of "pf + size_v (victims s i)" "n + 1"] obtain k where
      ih: "process_victims_loop mf vlen (i + 1) (pf + size_v (victims s i)) (n + 1) s =
             (n + 1 + k, s\<lparr>trace := trace s @ unlocks s (i + 1 + k) vlen\<rparr>)"
      and b: "i + 1 + k \<le> vlen"
      and below: "\<forall>j<k. pf + size_v (victims s i) + wsum (slice (victims s) (i + 1) j) < mf"
      and reach: "i + 1 + k < vlen \<longrightarrow> mf \<le> pf + size_v (victims s i) + wsum (slice (victims s) (i + 1) k)"
      by blast
    have eq: "process_victims_loop mf vlen i pf n s =
              (n + Suc k, s\<lparr>trace := trace s @ unlocks s (i + Suc k) vlen\<rparr>)"
      using lt False ih by (subst process_victims_loop.simps) simp
    have "\<forall>j<Suc k. pf + wsum (slice (victims s) i j) < mf"
    proof (intro allI impI)
      fix j assume "j < Suc k"
      show "pf + wsum (slice (victims s) i j) < mf"
      proof (cases j)
        case 0
        then show ?thesis using False by simp
      next
        case (Suc j')
        with \<open>j < Suc k\<close> below show ?thesis by (simp add: slice_Cons add.assoc)
      qed
    qed
    moreover have "i + Suc k < vlen \<longrightarrow> mf \<le> pf + wsum (slice (victims s) i (Suc k))"
      using reach by (simp add: slice_Cons add.assoc)
    ultimately show ?thesis using eq b by (intro exI [of _ "Suc k"]) simp
  qed
qed

lemma process_victims_result:
  "\<exists>k. process_victims mf vlen s = (k, s\<lparr>trace := trace s @ unlocks s k vlen\<rparr>) \<and>
       k \<le> vlen \<and>
       (\<forall>j<k. wsum (slice (victims s) 0 j) < mf) \<and>
       (k < vlen \<longrightarrow> mf \<le> wsum (slice (victims s) 0 k))"
  using process_victims_loop_result [of 0 vlen mf 0 0 s]
  by (simp add: process_victims_def)

lemma kill_loop_result:
  "i \<le> n \<Longrightarrow> kill_loop n i s = s\<lparr>trace := trace s @ kills s i n\<rparr>"
proof (induction "n - i" arbitrary: i s)
  case 0
  then show ?case by (subst kill_loop.simps) (simp add: kills_def)
next
  case (Suc d)
  then have lt: "i < n" and d: "d = n - (i + 1)" and le: "i + 1 \<le> n" by simp_all
  have k: "kills s i n = [Send_Sigkill (tsk (victims s i)), Expedite (tsk (victims s i)),
                        Task_Unlock (tsk (victims s i))] @ kills s (Suc i) n"
    using lt by (simp add: kills_def upt_rec [of i])
  from Suc.hyps(1) [OF d le] show ?case using lt
    by (subst kill_loop.simps) (simp add: k Let_def)
qed


section \<open>The trigger and the observers\<close>

lemma trigger_pending: "needs_reclaim s \<noteq> 0 \<Longrightarrow> simple_lmk_trigger s = s"
  by (simp add: simple_lmk_trigger_def atomic_cmpxchg_def)

lemma trigger_idle:
  "needs_reclaim s = 0 \<Longrightarrow>
   simple_lmk_trigger s = s\<lparr>needs_reclaim := 1, trace := trace s @ [Wake_Up]\<rparr>"
  by (simp add: simple_lmk_trigger_def atomic_cmpxchg_def)

lemma run_append: "run (as @ bs) sys = run bs (run as sys)"
  by (induction as arbitrary: sys) auto

lemma run_triggers_pending:
  "needs_reclaim (lmk sys) \<noteq> 0 \<Longrightarrow> run (replicate n Trigger) sys = sys"
  by (induction n) (auto simp: trigger_pending)

text \<open>
  C3, as the spec has it, fails: the observer stores 95 when the display goes off and
  100 when it wakes, so waking raises the stored value, and the pressure callback never
  reads it. With the screen on a pressure of 89 does not trigger and with the screen
  off a pressure of 90 does: the screen being off does not ask for a higher pressure.
\<close>

theorem display_observer_counterexample:
  "min_pressure (display_off init_state) = 95 \<and>
   min_pressure (display_wake (display_off init_state)) = 100 \<and>
   trace (simple_lmk_vmpressure_cb 89 init_state) = [] \<and>
   trace (simple_lmk_vmpressure_cb 90 (display_off init_state)) = [Wake_Up]"
  by (simp add: display_off_def display_wake_def blank_event_def msm_drm_notifier_callback_def
      init_state_def simple_lmk_vmpressure_cb_def simple_lmk_trigger_def atomic_cmpxchg_def)

text \<open>
  C3, amended: a power-down of the primary display while the screen is on stores 95 in
  \<^verbatim>\<open>min_pressure\<close> and an unblank while it is off stores 100 (each marks the new
  screen state, and is ignored when the screen is in that state already); whatever the
  display notifier was called with, the pressure callback wakes the worker exactly when
  the pressure is at least 90 and no request is pending.
\<close>

theorem display_observer_stores_and_fixed_threshold:
  "min_pressure (display_off s) = (if screen_on s then 95 else min_pressure s) \<and>
   min_pressure (display_wake s) = (if screen_on s then min_pressure s else 100) \<and>
   screen_on (display_off s) = False \<and> screen_on (display_wake s) = True \<and>
   trace (simple_lmk_vmpressure_cb pressure (msm_drm_notifier_callback ev d s)) =
     trace s @ (if 90 \<le> pressure \<and> needs_reclaim s = 0 then [Wake_Up] else []) \<and>
   needs_reclaim (simple_lmk_vmpressure_cb pressure (msm_drm_notifier_callback ev d s)) =
     (if 90 \<le> pressure \<and> needs_reclaim s = 0 then 1 else needs_reclaim s)"
  by (auto simp: display_off_def display_wake_def blank_event_def msm_drm_notifier_callback_def
      simple_lmk_vmpressure_cb_def simple_lmk_trigger_def atomic_cmpxchg_def
      split: option.splits drm_blank.splits)

text \<open>
  C7: a trigger call that finds the flag set changes nothing; one that finds it clear
  sets it and wakes the worker once; and from an idle system any number of trigger
  calls before the worker wakes and while it is in its cycle give the run of a single
  call: one cycle begun, the flag clear again, the worker asleep however often it looks
  at the flag afterwards.
\<close>

theorem trigger_coalescing:
  assumes idle: "needs_reclaim (lmk sys) = 0" "\<not> worker_in_cycle sys"
  shows "(needs_reclaim s \<noteq> 0 \<longrightarrow> simple_lmk_trigger s = s) \<and>
         (needs_reclaim s = 0 \<longrightarrow>
            simple_lmk_trigger s = s\<lparr>needs_reclaim := 1, trace := trace s @ [Wake_Up]\<rparr>) \<and>
         run (replicate (Suc n) Trigger @ Worker_Wakes # replicate m Trigger @
              Worker_Finishes procs mf reports # replicate k Worker_Wakes) sys =
           run [Trigger, Worker_Wakes, Worker_Finishes procs mf reports] sys \<and>
         cycles (run [Trigger, Worker_Wakes, Worker_Finishes procs mf reports] sys) =
           cycles sys + 1 \<and>
         lmk (run [Trigger, Worker_Wakes, Worker_Finishes procs mf reports] sys) =
           (scan_and_kill procs mf reports
              ((lmk sys)\<lparr>needs_reclaim := 1, trace := trace (lmk sys) @ [Wake_Up]\<rparr>))
             \<lparr>needs_reclaim := 0\<rparr>"
proof -
  let ?s1 = "step Trigger sys"
  have p1: "needs_reclaim (lmk ?s1) \<noteq> 0" "\<not> worker_in_cycle ?s1"
    using idle by (simp_all add: trigger_idle)
  have a: "run (replicate (Suc n) Trigger) sys = ?s1"
    using run_triggers_pending [OF p1(1), of n] by simp
  let ?s2 = "step Worker_Wakes ?s1"
  have p2: "needs_reclaim (lmk ?s2) \<noteq> 0" "worker_in_cycle ?s2" "cycles ?s2 = cycles sys + 1"
    using p1 by simp_all
  have b: "run (replicate m Trigger) ?s2 = ?s2"
    using run_triggers_pending [OF p2(1)] by simp
  let ?s3 = "step (Worker_Finishes procs mf reports) ?s2"
  have p3: "needs_reclaim (lmk ?s3) = 0" "\<not> worker_in_cycle ?s3" "cycles ?s3 = cycles sys + 1"
    using p2 by simp_all
  have c: "run (replicate k Worker_Wakes) ?s3 = ?s3"
    using p3 by (induction k) auto
  have "run (replicate (Suc n) Trigger @ Worker_Wakes # replicate m Trigger @
              Worker_Finishes procs mf reports # replicate k Worker_Wakes) sys = ?s3"
    unfolding run_append a using b c by (simp add: run_append)
  moreover have "run [Trigger, Worker_Wakes, Worker_Finishes procs mf reports] sys = ?s3"
    by simp
  moreover have "lmk ?s3 =
      (scan_and_kill procs mf reports
         ((lmk sys)\<lparr>needs_reclaim := 1, trace := trace (lmk sys) @ [Wake_Up]\<rparr>))
        \<lparr>needs_reclaim := 0\<rparr>"
    using idle p1 by (simp add: trigger_idle)
  ultimately show ?thesis
    using p3 by (simp add: trigger_pending trigger_idle del: run.simps step.simps replicate.simps)
qed

theorem trigger_coalescing_witness:
  "needs_reclaim (lmk init_system) = 0 \<and> \<not> worker_in_cycle init_system \<and>
   simple_lmk_trigger (init_state\<lparr>needs_reclaim := 1\<rparr>) = init_state\<lparr>needs_reclaim := 1\<rparr> \<and>
   cycles (run [Trigger, Worker_Wakes, Worker_Finishes [] 16384 []] init_system) = 1 \<and>
   run (replicate (Suc 2) Trigger @ Worker_Wakes # replicate 3 Trigger @
        Worker_Finishes [] 16384 [] # replicate 1 Worker_Wakes) init_system =
     run [Trigger, Worker_Wakes, Worker_Finishes [] 16384 []] init_system"
proof -
  have h: "needs_reclaim (lmk init_system) = 0" "\<not> worker_in_cycle init_system"
    by (simp_all add: init_system_def init_state_def)
  have c: "cycles init_system = 0"
    by (simp add: init_system_def)
  show ?thesis
    using h c trigger_coalescing [OF h, of "init_state\<lparr>needs_reclaim := 1\<rparr>" 2 3 "[]" 16384 "[]" 1]
    by simp
qed

end
